theory Spec2Isabelle
  imports Main "HOL-Library.Monad_Syntax"
begin

section \<open>hue\_candle: the candle flame simulator and its dispatch loop\<close>

text \<open>
  A shallow embedding of \<^verbatim>\<open>hue_candle.py\<close>. Python integers are unbounded, so
  every brightness, wind strength and random draw is an \<^typ>\<open>int\<close>.
\<close>

subsection \<open>Module constants\<close>

definition MAX_BRIGHTNESS :: int where
  "MAX_BRIGHTNESS = 220"

definition MIN_BRIGHTNESS :: int where
  "MIN_BRIGHTNESS = 100"

definition WIND_VARIABILITY :: int where
  "WIND_VARIABILITY = 2"

definition FLAME_AGILITY :: int where
  "FLAME_AGILITY = 20"

definition WIND_BASELINE :: int where
  "WIND_BASELINE = 5"

subsection \<open>The random source\<close>

text \<open>
  The only input of the simulator besides its own fields is Python's \<^verbatim>\<open>random\<close>
  module. It is modelled as the list of the integers that the successive calls of
  \<^verbatim>\<open>random.randint\<close> answer, consumed from the front. \<^verbatim>\<open>randint(a, b)\<close> answers an
  integer \<open>d\<close> with \<open>a \<le> d \<le> b\<close>; a list whose next element is outside that range,
  or that has no next element, is not a behaviour of the random source, and the
  model answers \<open>None\<close> there.
\<close>

type_synonym entropy = "int list"

definition randint :: "int \<Rightarrow> int \<Rightarrow> entropy \<Rightarrow> (int \<times> entropy) option" where
  "randint a b ds =
     (case ds of
        [] \<Rightarrow> None
      | d # ds' \<Rightarrow> if a \<le> d \<and> d \<le> b then Some (d, ds') else None)"

subsection \<open>class Flame\<close>

record Flame =
  flame :: int
  flameprime :: int
  wind :: int

text \<open>\<^verbatim>\<open>Flame.__init__\<close> (lines 63 to 70).\<close>

definition Flame_init :: Flame where
  "Flame_init =
     \<lparr>flame = MAX_BRIGHTNESS, flameprime = MAX_BRIGHTNESS, wind = WIND_BASELINE\<rparr>"

text \<open>
  \<^verbatim>\<open>Flame.GetNextFlameBrightness\<close> (lines 72 to 122), one definition for each of its
  five statements, in the order of the source. The object is mutated in place; the
  model returns the updated object together with the entropy that is left.
\<close>

text \<open>Lines 89 and 90: the gust roll.\<close>

definition gust_roll :: "Flame \<Rightarrow> entropy \<Rightarrow> (Flame \<times> entropy) option" where
  "gust_roll self ds =
     do {
       (r, ds1) \<leftarrow> randint 0 1000 ds;
       if r < WIND_VARIABILITY
       then do {
         (w, ds2) \<leftarrow> randint 0 255 ds1;
         Some (self\<lparr>wind := w\<rparr>, ds2)
       }
       else Some (self, ds1)
     }"

text \<open>Lines 93 and 94: the wind settles towards its baseline.\<close>

definition wind_settle :: "Flame \<Rightarrow> Flame" where
  "wind_settle self =
     (if wind self > WIND_BASELINE then self\<lparr>wind := wind self - 1\<rparr> else self)"

text \<open>Lines 97 and 98: the flame gets brighter.\<close>

definition flame_rise :: "Flame \<Rightarrow> Flame" where
  "flame_rise self =
     (if flame self < MAX_BRIGHTNESS then self\<lparr>flame := flame self + 1\<rparr> else self)"

text \<open>Lines 102 and 103: the wind may reset the flame to a random brightness.\<close>

definition gust_reset :: "Flame \<Rightarrow> entropy \<Rightarrow> (Flame \<times> entropy) option" where
  "gust_reset self ds =
     do {
       (r, ds1) \<leftarrow> randint 0 255 ds;
       if r < wind self
       then do {
         (f, ds2) \<leftarrow> randint MIN_BRIGHTNESS MAX_BRIGHTNESS ds1;
         Some (self\<lparr>flame := f\<rparr>, ds2)
       }
       else Some (self, ds1)
     }"

text \<open>Lines 109 to 118: the filtered brightness follows the flame.\<close>

definition inertial_filter :: "Flame \<Rightarrow> Flame" where
  "inertial_filter self =
     (if flame self > flameprime self
      then self\<lparr>flameprime := min (flameprime self + FLAME_AGILITY) MAX_BRIGHTNESS\<rparr>
      else self\<lparr>flameprime := max (flameprime self - FLAME_AGILITY) MIN_BRIGHTNESS\<rparr>)"

text \<open>
  The method: the returned brightness (line 122), the object after the call and the
  entropy left.
\<close>

definition GetNextFlameBrightness ::
    "Flame \<Rightarrow> entropy \<Rightarrow> (int \<times> Flame \<times> entropy) option" where
  "GetNextFlameBrightness self ds =
     do {
       (s1, ds1) \<leftarrow> gust_roll self ds;
       let s2 = wind_settle s1;
       let s3 = flame_rise s2;
       (s4, ds2) \<leftarrow> gust_reset s3 ds1;
       let s5 = inertial_filter s4;
       Some (flameprime s5, s5, ds2)
     }"

text \<open>
  The states a Flame object can be in: the one \<^verbatim>\<open>__init__\<close> builds, and every
  state a call of the method leaves behind.
\<close>

inductive reachable :: "Flame \<Rightarrow> bool" where
  reachable_init: "reachable Flame_init"
| reachable_step:
    "reachable s \<Longrightarrow> GetNextFlameBrightness s ds = Some (b, s', ds') \<Longrightarrow> reachable s'"

text \<open>
  The draws one call consumes when the random source answers \<open>g\<close> to the gust
  roll, \<open>w\<close> to the wind draw (asked for only when the gust roll passes), \<open>t\<close> to
  the wind-threshold roll and \<open>f\<close> to the flame draw (asked for only when the
  threshold roll passes).
\<close>

definition wind_before_reset :: "Flame \<Rightarrow> int \<Rightarrow> int \<Rightarrow> int" where
  "wind_before_reset self g w =
     wind (wind_settle (if g < WIND_VARIABILITY then self\<lparr>wind := w\<rparr> else self))"

definition call_draws :: "Flame \<Rightarrow> int \<Rightarrow> int \<Rightarrow> int \<Rightarrow> int \<Rightarrow> entropy" where
  "call_draws self g w t f =
     g # (if g < WIND_VARIABILITY then [w] else []) @
     t # (if t < wind_before_reset self g w then [f] else [])"

text \<open>The state invariant behind the range claims.\<close>

definition flame_inv :: "Flame \<Rightarrow> bool" where
  "flame_inv s \<longleftrightarrow>
     MIN_BRIGHTNESS \<le> flame s \<and> flame s \<le> MAX_BRIGHTNESS \<and>
     MIN_BRIGHTNESS \<le> flameprime s \<and> flameprime s \<le> MAX_BRIGHTNESS \<and>
     0 \<le> wind s \<and> wind s \<le> 255"

subsection \<open>Successive calls on one Flame\<close>

text \<open>
  \<open>n\<close> successive calls of the method on the same object, drawing from the same
  random source: the brightness values returned, in order, the object after the
  last call and the entropy left.
\<close>

fun run_ticks :: "nat \<Rightarrow> Flame \<Rightarrow> entropy \<Rightarrow> (int list \<times> Flame \<times> entropy) option" where
  "run_ticks 0 s ds = Some ([], s, ds)"
| "run_ticks (Suc n) s ds =
     do {
       (b, s1, ds1) \<leftarrow> GetNextFlameBrightness s ds;
       (bs, s2, ds2) \<leftarrow> run_ticks n s1 ds1;
       Some (b # bs, s2, ds2)
     }"

text \<open>
  A call without gust: the gust roll does not pass (it is at least
  \<open>WIND_VARIABILITY\<close>) and the wind-threshold roll fails the \<open>< wind\<close> test
  against the settled wind. Such a call consumes exactly these two draws.
\<close>

definition calm_call :: "Flame \<Rightarrow> entropy \<Rightarrow> bool" where
  "calm_call self ds =
     (case ds of
        g # t # _ \<Rightarrow>
          WIND_VARIABILITY \<le> g \<and> g \<le> 1000 \<and>
          0 \<le> t \<and> t \<le> 255 \<and> \<not> t < wind (wind_settle self)
      | _ \<Rightarrow> False)"

text \<open>The next \<open>n\<close> calls are all without gust.\<close>

fun calm_run :: "nat \<Rightarrow> Flame \<Rightarrow> entropy \<Rightarrow> bool" where
  "calm_run 0 s ds = True"
| "calm_run (Suc n) s ds =
     (calm_call s ds \<and>
      (case GetNextFlameBrightness s ds of
         None \<Rightarrow> False
       | Some (b, s1, ds1) \<Rightarrow> calm_run n s1 ds1))"

subsection \<open>GetBridgeIpAndUsername\<close>

text \<open>
  The file system is a map from file names to contents. The program is Python 2
  (it uses the \<^verbatim>\<open>print\<close> statement), where a file opened with mode \<^verbatim>\<open>'r'\<close> yields
  byte strings and \<^verbatim>\<open>readlines\<close> ends a line after each line feed; a last line
  without line feed counts when it is not empty.
\<close>

fun readlines :: "string \<Rightarrow> string list" where
  "readlines [] = []"
| "readlines (c # cs) =
     (if c = CHR 0x0A then [c] # readlines cs
      else (case readlines cs of [] \<Rightarrow> [[c]] | l # ls \<Rightarrow> (c # l) # ls))"

text \<open>
  \<^verbatim>\<open>str.strip()\<close> removes leading and trailing whitespace: space, tab, line feed,
  vertical tab, form feed and carriage return.
\<close>

definition isspace :: "char \<Rightarrow> bool" where
  "isspace c \<longleftrightarrow> c \<in> set [CHR 0x20, CHR 0x09, CHR 0x0A, CHR 0x0B, CHR 0x0C, CHR 0x0D]"

definition strip :: "string \<Rightarrow> string" where
  "strip s = rev (dropWhile isspace (rev (dropWhile isspace s)))"

datatype error = IOError | ValueError

text \<open>Lines 48 to 52. \<^verbatim>\<open>open\<close> raises IOError when the file does not exist.\<close>

definition GetBridgeIpAndUsername ::
    "(string \<rightharpoonup> string) \<Rightarrow> string \<Rightarrow> error + (string \<times> string)" where
  "GetBridgeIpAndUsername fs filename =
     (case fs filename of
        None \<Rightarrow> Inl IOError
      | Some content \<Rightarrow>
          let lines = map strip (readlines content)
          in if length lines \<noteq> 2 then Inl ValueError
             else Inr (lines ! 0, lines ! 1))"

subsection \<open>main\<close>

definition SEND_TO_HUE :: bool where
  "SEND_TO_HUE = True"

definition IN_SYNC :: bool where
  "IN_SYNC = True"

definition LIGHTS :: "int list" where
  "LIGHTS = [2, 4]"

text \<open>
  \<^verbatim>\<open>int(TRANSITION_TIME * 1000)\<close>, the \<^verbatim>\<open>transitiontime\<close> field of every brightness
  request: \<^verbatim>\<open>TRANSITION_TIME\<close> is the float 0.005.
\<close>

definition transitiontime :: int where
  "transitiontime = 5"

text \<open>
  What the program sends out, in order: the request that turns a light on (its
  id), the request that sets a light's brightness (its id, \<^verbatim>\<open>bri\<close> and
  \<^verbatim>\<open>transitiontime\<close>), and the debug line written to stdout (the brightness it
  renders). The bridge's answers are only printed and change nothing in the run.
\<close>

datatype effect = PutOn int | PutBri int int int | DebugLine int

type_synonym flames = "int \<rightharpoonup> Flame"

text \<open>Lines 140 to 143: a Flame for each light.\<close>

definition make_flames :: "int list \<Rightarrow> flames" where
  "make_flames lights = fold (\<lambda>i flames. flames(i \<mapsto> Flame_init)) lights Map.empty"

text \<open>
  \<^verbatim>\<open>flames[i].GetNextFlameBrightness()\<close>: the object stored under \<open>i\<close> is updated in
  place; a missing key raises KeyError (\<open>None\<close>).
\<close>

definition call_flame :: "flames \<Rightarrow> int \<Rightarrow> entropy \<Rightarrow> (int \<times> flames \<times> entropy) option" where
  "call_flame flames i ds =
     do {
       f \<leftarrow> flames i;
       (b, f', ds') \<leftarrow> GetNextFlameBrightness f ds;
       Some (b, flames(i \<mapsto> f'), ds')
     }"

text \<open>\<^verbatim>\<open>LIGHTS[0]\<close>: IndexError (\<open>None\<close>) on the empty list.\<close>

definition first_light :: "int list \<Rightarrow> int option" where
  "first_light lights = (case lights of [] \<Rightarrow> None | i # _ \<Rightarrow> Some i)"

text \<open>
  Lines 149 to 160, the loop over the lights. The local variable \<^verbatim>\<open>brightness\<close> is
  \<open>None\<close> while it is unbound; reading it then raises NameError (\<open>None\<close>).
\<close>

fun for_lights ::
    "bool \<Rightarrow> int list \<Rightarrow> int option \<Rightarrow> flames \<Rightarrow> entropy \<Rightarrow>
     (effect list \<times> int option \<times> flames \<times> entropy) option" where
  "for_lights in_sync [] brightness flames ds = Some ([], brightness, flames, ds)"
| "for_lights in_sync (i # rest) brightness flames ds =
     do {
       (brightness1, flames1, ds1) \<leftarrow>
         (if \<not> in_sync
          then do {
            (b, flames', ds') \<leftarrow> call_flame flames i ds;
            Some (Some b, flames', ds')
          }
          else Some (brightness, flames, ds));
       bri \<leftarrow> brightness1;
       (out, brightness2, flames2, ds2) \<leftarrow> for_lights in_sync rest brightness1 flames1 ds1;
       Some (PutBri i bri transitiontime # out, brightness2, flames2, ds2)
     }"

text \<open>Lines 146 to 173, one pass of the \<^verbatim>\<open>while True\<close> loop (the sleep left out).\<close>

definition loop_body ::
    "bool \<Rightarrow> bool \<Rightarrow> int list \<Rightarrow> int option \<Rightarrow> flames \<Rightarrow> entropy \<Rightarrow>
     (effect list \<times> int option \<times> flames \<times> entropy) option" where
  "loop_body send_to_hue in_sync lights brightness flames ds =
     (if send_to_hue
      then do {
        (brightness1, flames1, ds1) \<leftarrow>
          (if in_sync
           then do {
             i0 \<leftarrow> first_light lights;
             (b, flames', ds') \<leftarrow> call_flame flames i0 ds;
             Some (Some b, flames', ds')
           }
           else Some (brightness, flames, ds));
        for_lights in_sync lights brightness1 flames1 ds1
      }
      else do {
        i0 \<leftarrow> first_light lights;
        (b, flames', ds') \<leftarrow> call_flame flames i0 ds;
        Some ([DebugLine b], Some b, flames', ds')
      })"

text \<open>The first \<open>n\<close> passes of the loop, which itself never ends.\<close>

fun main_loop ::
    "nat \<Rightarrow> bool \<Rightarrow> bool \<Rightarrow> int list \<Rightarrow> int option \<Rightarrow> flames \<Rightarrow> entropy \<Rightarrow>
     (effect list \<times> int option \<times> flames \<times> entropy) option" where
  "main_loop 0 send_to_hue in_sync lights brightness flames ds =
     Some ([], brightness, flames, ds)"
| "main_loop (Suc n) send_to_hue in_sync lights brightness flames ds =
     do {
       (out1, brightness1, flames1, ds1) \<leftarrow>
         loop_body send_to_hue in_sync lights brightness flames ds;
       (out2, brightness2, flames2, ds2) \<leftarrow>
         main_loop n send_to_hue in_sync lights brightness1 flames1 ds1;
       Some (out1 @ out2, brightness2, flames2, ds2)
     }"

text \<open>
  \<^verbatim>\<open>main\<close>, up to the end of the \<open>n\<close>-th pass of its loop: the credentials are read
  (an error ends the program there), the lights are turned on, the Flames are
  made, and the loop runs.
\<close>

definition main ::
    "(string \<rightharpoonup> string) \<Rightarrow> nat \<Rightarrow> entropy \<Rightarrow>
     error + (effect list \<times> flames \<times> entropy) option" where
  "main fs n ds =
     (case GetBridgeIpAndUsername fs ''./bridge_ip_and_username.txt'' of
        Inl e \<Rightarrow> Inl e
      | Inr (bridge_ip, username) \<Rightarrow>
          Inr (do {
            let on = (if SEND_TO_HUE then map PutOn LIGHTS else []);
            let flames = make_flames LIGHTS;
            (out, brightness, flames', ds') \<leftarrow>
              main_loop n SEND_TO_HUE IN_SYNC LIGHTS None flames ds;
            Some (on @ out, flames', ds')
          }))"

section \<open>Properties of one call\<close>

lemmas flame_consts =
  MAX_BRIGHTNESS_def MIN_BRIGHTNESS_def WIND_VARIABILITY_def FLAME_AGILITY_def
  WIND_BASELINE_def

lemma randint_Some:
  "randint a b ds = Some (d, ds') \<longleftrightarrow> ds = d # ds' \<and> a \<le> d \<and> d \<le> b"
  by (auto simp: randint_def split: list.splits)

lemma gust_roll_Some:
  assumes "gust_roll s ds = Some (s', ds')"
  shows "flame s' = flame s \<and> flameprime s' = flameprime s \<and>
         (wind s' = wind s \<or> 0 \<le> wind s' \<and> wind s' \<le> 255)"
  using assms
  by (auto simp: gust_roll_def randint_Some split: Option.bind_splits if_splits)

lemma gust_reset_Some:
  assumes "gust_reset s ds = Some (s', ds')"
  shows "wind s' = wind s \<and> flameprime s' = flameprime s \<and>
         (flame s' = flame s \<or> MIN_BRIGHTNESS \<le> flame s' \<and> flame s' \<le> MAX_BRIGHTNESS)"
  using assms
  by (auto simp: gust_reset_def randint_Some split: Option.bind_splits if_splits)

lemma GetNextFlameBrightness_Some:
  assumes "GetNextFlameBrightness s ds = Some (b, s', ds')"
  obtains s1 ds1 s4 where
    "gust_roll s ds = Some (s1, ds1)"
    "gust_reset (flame_rise (wind_settle s1)) ds1 = Some (s4, ds')"
    "s' = inertial_filter s4" "b = flameprime s'"
  using assms
  by (auto simp: GetNextFlameBrightness_def Let_def split: Option.bind_splits)

lemma flame_inv_step:
  assumes "flame_inv s" and "GetNextFlameBrightness s ds = Some (b, s', ds')"
  shows "flame_inv s'"
proof -
  from assms(2) obtain s1 ds1 s4 where
    roll: "gust_roll s ds = Some (s1, ds1)" and
    reset: "gust_reset (flame_rise (wind_settle s1)) ds1 = Some (s4, ds')" and
    s': "s' = inertial_filter s4"
    by (rule GetNextFlameBrightness_Some)
  from gust_roll_Some [OF roll] assms(1) have 1: "flame_inv s1"
    by (auto simp: flame_inv_def)
  then have 3: "flame_inv (flame_rise (wind_settle s1))"
    by (auto simp: flame_inv_def flame_rise_def wind_settle_def flame_consts)
  with gust_reset_Some [OF reset] have 4: "flame_inv s4"
    by (auto simp: flame_inv_def)
  then show ?thesis
    unfolding s' by (auto simp: flame_inv_def inertial_filter_def flame_consts)
qed

lemma reachable_flame_inv: "reachable s \<Longrightarrow> flame_inv s"
proof (induction rule: reachable.induct)
  case reachable_init
  show ?case by (simp add: flame_inv_def Flame_init_def flame_consts)
next
  case (reachable_step s ds b s' ds')
  then show ?case by (blast intro: flame_inv_step)
qed

lemma GetNextFlameBrightness_filter:
  assumes "GetNextFlameBrightness s ds = Some (b, s', ds')"
  shows "b = flameprime s' \<and>
         flameprime s' =
           (if flame s' > flameprime s
            then min (flameprime s + FLAME_AGILITY) MAX_BRIGHTNESS
            else max (flameprime s - FLAME_AGILITY) MIN_BRIGHTNESS)"
proof -
  from assms obtain s1 ds1 s4 where
    roll: "gust_roll s ds = Some (s1, ds1)" and
    reset: "gust_reset (flame_rise (wind_settle s1)) ds1 = Some (s4, ds')" and
    s': "s' = inertial_filter s4" and b: "b = flameprime s'"
    by (rule GetNextFlameBrightness_Some)
  have "flameprime s4 = flameprime s"
    using gust_roll_Some [OF roll] gust_reset_Some [OF reset]
    by (simp add: flame_rise_def wind_settle_def)
  then show ?thesis
    unfolding s' b by (simp add: inertial_filter_def)
qed

lemma gust_roll_wind:
  assumes "gust_roll s ds = Some (s', ds')"
  shows "wind s' = wind s \<or>
         (\<exists>g w rest. ds = g # w # rest \<and> g < WIND_VARIABILITY \<and> 0 \<le> w \<and> w \<le> 255 \<and>
            wind s' = w)"
  using assms
  by (auto simp: gust_roll_def randint_Some split: Option.bind_splits if_splits)

lemma GetNextFlameBrightness_wind:
  assumes "GetNextFlameBrightness s ds = Some (b, s', ds')"
  shows "wind s' = wind s \<or> wind s' = wind s - 1 \<and> WIND_BASELINE < wind s \<or>
         (\<exists>g w rest. ds = g # w # rest \<and> g < WIND_VARIABILITY \<and> 0 \<le> w \<and> w \<le> 255 \<and>
            wind s' = (if w > WIND_BASELINE then w - 1 else w))"
proof -
  from assms obtain s1 ds1 s4 where
    roll: "gust_roll s ds = Some (s1, ds1)" and
    reset: "gust_reset (flame_rise (wind_settle s1)) ds1 = Some (s4, ds')" and
    s': "s' = inertial_filter s4"
    by (rule GetNextFlameBrightness_Some)
  have "wind s' = wind (wind_settle s1)"
    using gust_reset_Some [OF reset]
    by (simp add: s' inertial_filter_def flame_rise_def)
  with gust_roll_wind [OF roll] show ?thesis
    by (auto simp: wind_settle_def split: if_splits)
qed

lemma GetNextFlameBrightness_returns:
  assumes "0 \<le> g" "g \<le> 1000" "0 \<le> w" "w \<le> 255" "0 \<le> t" "t \<le> 255"
    "MIN_BRIGHTNESS \<le> f" "f \<le> MAX_BRIGHTNESS"
  shows "\<exists>b s'. GetNextFlameBrightness s (call_draws s g w t f @ rest) = Some (b, s', rest)"
  using assms
  by (simp add: GetNextFlameBrightness_def call_draws_def wind_before_reset_def
      gust_roll_def gust_reset_def randint_def flame_rise_def Let_def)


text \<open>
  C1. From every reachable Flame state, whatever the random source answers, the
  call returns a brightness in \<open>[MIN_BRIGHTNESS, MAX_BRIGHTNESS]\<close>, and the field
  \<open>flameprime\<close> is in that range after the call. The call does return: for every
  answer of the random source within the ranges asked for, it yields a result.
\<close>

theorem brightness_in_range:
  assumes "reachable s"
  shows "(\<forall>ds b s' ds'. GetNextFlameBrightness s ds = Some (b, s', ds') \<longrightarrow>
            MIN_BRIGHTNESS \<le> b \<and> b \<le> MAX_BRIGHTNESS \<and>
            MIN_BRIGHTNESS \<le> flameprime s' \<and> flameprime s' \<le> MAX_BRIGHTNESS) \<and>
         (\<forall>g w t f rest.
            0 \<le> g \<and> g \<le> 1000 \<and> 0 \<le> w \<and> w \<le> 255 \<and> 0 \<le> t \<and> t \<le> 255 \<and>
            MIN_BRIGHTNESS \<le> f \<and> f \<le> MAX_BRIGHTNESS \<longrightarrow>
            (\<exists>b s'. GetNextFlameBrightness s (call_draws s g w t f @ rest) = Some (b, s', rest) \<and>
               MIN_BRIGHTNESS \<le> b \<and> b \<le> MAX_BRIGHTNESS))"
proof -
  have range: "MIN_BRIGHTNESS \<le> b \<and> b \<le> MAX_BRIGHTNESS \<and>
      MIN_BRIGHTNESS \<le> flameprime s' \<and> flameprime s' \<le> MAX_BRIGHTNESS"
    if call: "GetNextFlameBrightness s ds = Some (b, s', ds')" for ds b s' ds'
  proof -
    from assms have "flame_inv s" by (rule reachable_flame_inv)
    then have "flame_inv s'" using call by (rule flame_inv_step)
    moreover have "b = flameprime s'"
      using GetNextFlameBrightness_filter [OF call] by simp
    ultimately show ?thesis by (simp add: flame_inv_def)
  qed
  have "\<exists>b s'. GetNextFlameBrightness s (call_draws s g w t f @ rest) = Some (b, s', rest) \<and>
      MIN_BRIGHTNESS \<le> b \<and> b \<le> MAX_BRIGHTNESS"
    if "0 \<le> g \<and> g \<le> 1000 \<and> 0 \<le> w \<and> w \<le> 255 \<and> 0 \<le> t \<and> t \<le> 255 \<and>
        MIN_BRIGHTNESS \<le> f \<and> f \<le> MAX_BRIGHTNESS" for g w t f rest
  proof -
    from that obtain b s' where
      "GetNextFlameBrightness s (call_draws s g w t f @ rest) = Some (b, s', rest)"
      using GetNextFlameBrightness_returns [of g w t f s rest] by blast
    with range [OF this] show ?thesis by blast
  qed
  with range show ?thesis by blast
qed

theorem brightness_in_range_witness:
  "reachable Flame_init \<and>
   GetNextFlameBrightness Flame_init [1000, 0, 100] =
     Some (200, \<lparr>flame = 100, flameprime = 200, wind = 5\<rparr>, []) \<and>
   MIN_BRIGHTNESS \<le> 200 \<and> 200 \<le> MAX_BRIGHTNESS \<and>
   call_draws Flame_init 1000 0 0 100 @ [] = [1000, 0, 100]"
proof -
  have call: "GetNextFlameBrightness Flame_init [1000, 0, 100] =
      Some (200, \<lparr>flame = 100, flameprime = 200, wind = 5\<rparr>, [])"
    by (simp add: GetNextFlameBrightness_def gust_roll_def gust_reset_def randint_def
        wind_settle_def flame_rise_def inertial_filter_def Flame_init_def flame_consts)
  have draws: "call_draws Flame_init 1000 0 0 100 @ [] = [1000, 0, 100]"
    by (simp add: call_draws_def wind_before_reset_def wind_settle_def Flame_init_def
        flame_consts)
  from brightness_in_range [OF reachable_init] call
  have "MIN_BRIGHTNESS \<le> 200 \<and> 200 \<le> MAX_BRIGHTNESS" by blast
  with call draws show ?thesis by (simp add: reachable_init)
qed

text \<open>
  C5. The bounded change law: from every reachable state, whatever the random
  source answers, a call moves \<open>flameprime\<close> by at most \<open>FLAME_AGILITY\<close>.
\<close>

theorem flameprime_bounded_change:
  assumes "reachable s" and "GetNextFlameBrightness s ds = Some (b, s', ds')"
  shows "\<bar>flameprime s' - flameprime s\<bar> \<le> FLAME_AGILITY"
proof -
  from assms(1) have "flame_inv s" by (rule reachable_flame_inv)
  then have "MIN_BRIGHTNESS \<le> flameprime s" "flameprime s \<le> MAX_BRIGHTNESS"
    by (simp_all add: flame_inv_def)
  with GetNextFlameBrightness_filter [OF assms(2)] show ?thesis
    by (auto simp: FLAME_AGILITY_def split: if_splits)
qed

theorem flameprime_bounded_change_witness:
  "reachable Flame_init \<and>
   GetNextFlameBrightness Flame_init [1000, 255] =
     Some (200, \<lparr>flame = 220, flameprime = 200, wind = 5\<rparr>, []) \<and>
   \<bar>200 - flameprime Flame_init\<bar> \<le> FLAME_AGILITY"
proof -
  have call: "GetNextFlameBrightness Flame_init [1000, 255] =
      Some (200, \<lparr>flame = 220, flameprime = 200, wind = 5\<rparr>, [])"
    by (simp add: GetNextFlameBrightness_def gust_roll_def gust_reset_def randint_def
        wind_settle_def flame_rise_def inertial_filter_def Flame_init_def flame_consts)
  from flameprime_bounded_change [OF reachable_init call] call show ?thesis
    by (simp add: reachable_init)
qed

text \<open>
  C6. From every reachable state, whatever the random source answers, the field
  \<open>wind\<close> is in \<open>[0, 255]\<close> after the call. The call leaves the wind as it was,
  or decrements it by 1 from a value above \<open>WIND_BASELINE\<close>, or a gust has assigned
  it a draw from \<open>[0, 255]\<close> (settled by at most 1, never below the baseline).
\<close>

theorem wind_in_range:
  assumes "reachable s" and "GetNextFlameBrightness s ds = Some (b, s', ds')"
  shows "0 \<le> wind s' \<and> wind s' \<le> 255 \<and>
         (wind s' = wind s \<or> wind s' = wind s - 1 \<and> WIND_BASELINE < wind s \<or>
          (\<exists>g w rest. ds = g # w # rest \<and> g < WIND_VARIABILITY \<and> 0 \<le> w \<and> w \<le> 255 \<and>
             wind s' = (if w > WIND_BASELINE then w - 1 else w)))"
proof -
  from assms(1) have "flame_inv s" by (rule reachable_flame_inv)
  then have "flame_inv s'" using assms(2) by (rule flame_inv_step)
  then have "0 \<le> wind s' \<and> wind s' \<le> 255" by (simp add: flame_inv_def)
  with GetNextFlameBrightness_wind [OF assms(2)] show ?thesis by simp
qed

theorem wind_in_range_witness:
  "reachable Flame_init \<and>
   GetNextFlameBrightness Flame_init [1, 255, 255] =
     Some (200, \<lparr>flame = 220, flameprime = 200, wind = 254\<rparr>, []) \<and>
   (0::int) \<le> 254 \<and> (254::int) \<le> 255"
proof -
  have call: "GetNextFlameBrightness Flame_init [1, 255, 255] =
      Some (200, \<lparr>flame = 220, flameprime = 200, wind = 254\<rparr>, [])"
    by (simp add: GetNextFlameBrightness_def gust_roll_def gust_reset_def randint_def
        wind_settle_def flame_rise_def inertial_filter_def Flame_init_def flame_consts)
  from wind_in_range [OF reachable_init call] call show ?thesis
    by (simp add: reachable_init)
qed

text \<open>
  C3. When the flame equals \<open>flameprime\<close> at the inertial filter (the flame is
  the one the call leaves, \<open>flameprime\<close> the one it found), the decrease branch is
  taken: the new \<open>flameprime\<close> is \<open>max (flameprime - FLAME_AGILITY) MIN_BRIGHTNESS\<close>.
  From a reachable state this changes nothing exactly when \<open>flameprime\<close> is
  \<open>MIN_BRIGHTNESS\<close>, and otherwise \<open>flameprime\<close> strictly decreases.
\<close>

theorem equal_takes_decrease_branch:
  assumes "reachable s" and "GetNextFlameBrightness s ds = Some (b, s', ds')"
    and "flame s' = flameprime s"
  shows "flameprime s' = max (flameprime s - FLAME_AGILITY) MIN_BRIGHTNESS \<and>
         b = flameprime s' \<and>
         (flameprime s' = flameprime s \<longleftrightarrow> flameprime s = MIN_BRIGHTNESS) \<and>
         (flameprime s \<noteq> MIN_BRIGHTNESS \<longrightarrow> flameprime s' < flameprime s)"
proof -
  from assms(1) have "flame_inv s" by (rule reachable_flame_inv)
  then have "MIN_BRIGHTNESS \<le> flameprime s" by (simp add: flame_inv_def)
  with GetNextFlameBrightness_filter [OF assms(2)] assms(3) show ?thesis
    by (auto simp: FLAME_AGILITY_def)
qed

theorem equal_takes_decrease_branch_witness:
  "reachable Flame_init \<and>
   GetNextFlameBrightness Flame_init [1000, 255] =
     Some (200, \<lparr>flame = 220, flameprime = 200, wind = 5\<rparr>, []) \<and>
   flame \<lparr>flame = 220, flameprime = 200, wind = 5\<rparr> = flameprime Flame_init \<and>
   (200::int) = max (flameprime Flame_init - FLAME_AGILITY) MIN_BRIGHTNESS \<and>
   flameprime Flame_init \<noteq> MIN_BRIGHTNESS \<and> 200 < flameprime Flame_init"
proof -
  have call: "GetNextFlameBrightness Flame_init [1000, 255] =
      Some (200, \<lparr>flame = 220, flameprime = 200, wind = 5\<rparr>, [])"
    by (simp add: GetNextFlameBrightness_def gust_roll_def gust_reset_def randint_def
        wind_settle_def flame_rise_def inertial_filter_def Flame_init_def flame_consts)
  have eq: "flame \<lparr>flame = 220, flameprime = 200, wind = 5\<rparr> = flameprime Flame_init"
    by (simp add: Flame_init_def flame_consts)
  from equal_takes_decrease_branch [OF reachable_init call eq]
  have "(200::int) = max (flameprime Flame_init - FLAME_AGILITY) MIN_BRIGHTNESS \<and>
      flameprime Flame_init \<noteq> MIN_BRIGHTNESS \<and> 200 < flameprime Flame_init"
    by (simp add: Flame_init_def flame_consts)
  with reachable_init call eq show ?thesis by simp
qed

section \<open>Calls without gust\<close>

lemma calm_call_GetNextFlameBrightness:
  assumes "calm_call s ds"
  shows "\<exists>g t rest. ds = g # t # rest \<and>
           GetNextFlameBrightness s ds =
             Some (flameprime (inertial_filter (flame_rise (wind_settle s))),
                   inertial_filter (flame_rise (wind_settle s)), rest)"
  using assms
  by (auto simp: calm_call_def GetNextFlameBrightness_def gust_roll_def gust_reset_def
      randint_def flame_rise_def WIND_VARIABILITY_def Let_def split: list.splits)

lemma calm_filter_fields:
  "flame (inertial_filter (flame_rise (wind_settle s))) =
     (if flame s < MAX_BRIGHTNESS then flame s + 1 else flame s)"
  "wind (inertial_filter (flame_rise (wind_settle s))) = wind (wind_settle s)"
  by (simp_all add: inertial_filter_def flame_rise_def wind_settle_def)

lemma calm_run_Suc:
  assumes "calm_run (Suc n) s ds"
  obtains b s1 ds1 where
    "GetNextFlameBrightness s ds = Some (b, s1, ds1)" "calm_run n s1 ds1"
    "flame s1 = (if flame s < MAX_BRIGHTNESS then flame s + 1 else flame s)"
    "flameprime s1 =
       (if flame s1 > flameprime s
        then min (flameprime s + FLAME_AGILITY) MAX_BRIGHTNESS
        else max (flameprime s - FLAME_AGILITY) MIN_BRIGHTNESS)"
    "b = flameprime s1"
proof -
  from assms have calm: "calm_call s ds" by simp
  then obtain rest where
    call: "GetNextFlameBrightness s ds =
      Some (flameprime (inertial_filter (flame_rise (wind_settle s))),
            inertial_filter (flame_rise (wind_settle s)), rest)"
    using calm_call_GetNextFlameBrightness by blast
  with assms have "calm_run n (inertial_filter (flame_rise (wind_settle s))) rest"
    by simp
  with call GetNextFlameBrightness_filter [OF call] calm_filter_fields(1) [of s] that
  show thesis by blast
qed

lemma calm_run_ticks:
  assumes "flame s \<le> MAX_BRIGHTNESS" and "calm_run n s ds"
  shows "\<exists>bs s' ds'. run_ticks n s ds = Some (bs, s', ds') \<and> length bs = n \<and>
           flame s' = min (flame s + int n) MAX_BRIGHTNESS \<and>
           (\<forall>k<n. bs ! k =
              (let fp = (if k = 0 then flameprime s else bs ! (k - 1));
                   fl = min (flame s + int k + 1) MAX_BRIGHTNESS
               in if fl > fp then min (fp + FLAME_AGILITY) MAX_BRIGHTNESS
                  else max (fp - FLAME_AGILITY) MIN_BRIGHTNESS))"
  using assms
proof (induction n arbitrary: s ds)
  case 0
  then show ?case by simp
next
  case (Suc n)
  from Suc.prems(2) obtain b s1 ds1 where
    call: "GetNextFlameBrightness s ds = Some (b, s1, ds1)" and
    calm: "calm_run n s1 ds1" and
    fl: "flame s1 = (if flame s < MAX_BRIGHTNESS then flame s + 1 else flame s)" and
    fp: "flameprime s1 =
       (if flame s1 > flameprime s
        then min (flameprime s + FLAME_AGILITY) MAX_BRIGHTNESS
        else max (flameprime s - FLAME_AGILITY) MIN_BRIGHTNESS)" and
    b: "b = flameprime s1"
    by (rule calm_run_Suc)
  from fl Suc.prems(1) have fl1: "flame s1 = min (flame s + 1) MAX_BRIGHTNESS"
    by simp
  then have le: "flame s1 \<le> MAX_BRIGHTNESS" by simp
  from Suc.IH [OF le calm] obtain bs s' ds' where
    run: "run_ticks n s1 ds1 = Some (bs, s', ds')" and len: "length bs = n" and
    fl': "flame s' = min (flame s1 + int n) MAX_BRIGHTNESS" and
    rule: "\<And>k. k < n \<Longrightarrow> bs ! k =
              (let fp = (if k = 0 then flameprime s1 else bs ! (k - 1));
                   fl = min (flame s1 + int k + 1) MAX_BRIGHTNESS
               in if fl > fp then min (fp + FLAME_AGILITY) MAX_BRIGHTNESS
                  else max (fp - FLAME_AGILITY) MIN_BRIGHTNESS)"
    by blast
  have run': "run_ticks (Suc n) s ds = Some (b # bs, s', ds')"
    using call run by simp
  have "flame s' = min (flame s + int (Suc n)) MAX_BRIGHTNESS"
    using fl' fl1 by simp
  moreover have "(b # bs) ! k =
      (let fp = (if k = 0 then flameprime s else (b # bs) ! (k - 1));
           fl = min (flame s + int k + 1) MAX_BRIGHTNESS
       in if fl > fp then min (fp + FLAME_AGILITY) MAX_BRIGHTNESS
          else max (fp - FLAME_AGILITY) MIN_BRIGHTNESS)" if "k < Suc n" for k
  proof (cases k)
    case 0
    then show ?thesis using fp b fl1 by (simp add: Let_def)
  next
    case (Suc j)
    with that have "j < n" by simp
    have eq: "min (flame s1 + int j + 1) MAX_BRIGHTNESS =
        min (flame s + int (Suc j) + 1) MAX_BRIGHTNESS"
      using fl1 by simp
    have prev: "(if j = 0 then flameprime s1 else bs ! (j - 1)) = (b # bs) ! j"
      using b by (cases j) simp_all
    show ?thesis
      using rule [OF \<open>j < n\<close>] unfolding Suc eq prev by (simp add: Let_def)
  qed
  ultimately show ?case using run' len by auto
qed

lemma alternate_at_max:
  assumes rule: "\<And>k. k < n \<Longrightarrow> bs ! k =
              (let fp = (if k = 0 then MAX_BRIGHTNESS else bs ! (k - 1));
                   fl = MAX_BRIGHTNESS
               in if fl > fp then min (fp + FLAME_AGILITY) MAX_BRIGHTNESS
                  else max (fp - FLAME_AGILITY) MIN_BRIGHTNESS)"
  shows "k < n \<Longrightarrow> bs ! k = (if even k then MAX_BRIGHTNESS - FLAME_AGILITY else MAX_BRIGHTNESS)"
proof (induction k)
  case 0
  with rule [of 0] show ?case by (simp add: flame_consts)
next
  case (Suc k)
  then have "bs ! k = (if even k then MAX_BRIGHTNESS - FLAME_AGILITY else MAX_BRIGHTNESS)"
    by simp
  with rule [OF Suc.prems] show ?case by (simp add: flame_consts)
qed


section \<open>The scenarios of the specification\<close>

text \<open>
  C2 (Scenario A), as the code has it. The run starts with
  \<open>flame = flameprime = 220\<close>; the first call leaves \<open>flame = 100\<close> (only the
  gust-driven reset can do that), and the six calls after it are without gust.
  The values returned are 200, 180, 160, 140, 120, 100 and then 120: at the
  seventh call the flame has risen to 106, above the floor that \<open>flameprime\<close>
  reached, so the increase branch runs and \<open>flameprime\<close> leaves the floor again.
\<close>

theorem scenario_A_sequence:
  assumes "flame s0 = 220" and "flameprime s0 = 220"
    and "GetNextFlameBrightness s0 ds = Some (b1, s1, ds1)"
    and "flame s1 = 100"
    and "calm_run 6 s1 ds1"
  shows "\<exists>s7 ds7. run_ticks 7 s0 ds = Some ([200, 180, 160, 140, 120, 100, 120], s7, ds7)"
proof -
  from GetNextFlameBrightness_filter [OF assms(3)] assms(1,2,4)
  have 1: "b1 = 200" "flameprime s1 = 200"
    by (simp_all add: flame_consts)
  have six: "(6::nat) = Suc (Suc (Suc (Suc (Suc (Suc 0)))))"
    and seven: "(7::nat) = Suc (Suc (Suc (Suc (Suc (Suc (Suc 0))))))"
    by simp_all
  from assms(5) have "calm_run (Suc (Suc (Suc (Suc (Suc (Suc 0)))))) s1 ds1"
    unfolding six .
  then obtain b2 s2 ds2 where c2: "GetNextFlameBrightness s1 ds1 = Some (b2, s2, ds2)"
    and r2: "calm_run (Suc (Suc (Suc (Suc (Suc 0))))) s2 ds2"
    and 2: "flame s2 = 101" "flameprime s2 = 180" "b2 = 180"
    by (rule calm_run_Suc) (simp add: 1 assms(4) flame_consts)
  from r2 obtain b3 s3 ds3 where c3: "GetNextFlameBrightness s2 ds2 = Some (b3, s3, ds3)"
    and r3: "calm_run (Suc (Suc (Suc (Suc 0)))) s3 ds3"
    and 3: "flame s3 = 102" "flameprime s3 = 160" "b3 = 160"
    by (rule calm_run_Suc) (simp add: 2 flame_consts)
  from r3 obtain b4 s4 ds4 where c4: "GetNextFlameBrightness s3 ds3 = Some (b4, s4, ds4)"
    and r4: "calm_run (Suc (Suc (Suc 0))) s4 ds4"
    and 4: "flame s4 = 103" "flameprime s4 = 140" "b4 = 140"
    by (rule calm_run_Suc) (simp add: 3 flame_consts)
  from r4 obtain b5 s5 ds5 where c5: "GetNextFlameBrightness s4 ds4 = Some (b5, s5, ds5)"
    and r5: "calm_run (Suc (Suc 0)) s5 ds5"
    and 5: "flame s5 = 104" "flameprime s5 = 120" "b5 = 120"
    by (rule calm_run_Suc) (simp add: 4 flame_consts)
  from r5 obtain b6 s6 ds6 where c6: "GetNextFlameBrightness s5 ds5 = Some (b6, s6, ds6)"
    and r6: "calm_run (Suc 0) s6 ds6"
    and 6: "flame s6 = 105" "flameprime s6 = 100" "b6 = 100"
    by (rule calm_run_Suc) (simp add: 5 flame_consts)
  from r6 obtain b7 s7 ds7 where c7: "GetNextFlameBrightness s6 ds6 = Some (b7, s7, ds7)"
    and 7: "flame s7 = 106" "flameprime s7 = 120" "b7 = 120"
    by (rule calm_run_Suc) (simp add: 6 flame_consts)
  have "run_ticks (Suc (Suc (Suc (Suc (Suc (Suc (Suc 0))))))) s0 ds =
      Some ([b1, b2, b3, b4, b5, b6, b7], s7, ds7)"
    using assms(3) c2 c3 c4 c5 c6 c7 by simp
  then have "run_ticks 7 s0 ds = Some ([b1, b2, b3, b4, b5, b6, b7], s7, ds7)"
    unfolding seven .
  then show ?thesis by (simp add: 1 2 3 4 5 6 7)
qed

theorem scenario_A_sequence_witness:
  "flame Flame_init = 220 \<and> flameprime Flame_init = 220 \<and>
   GetNextFlameBrightness Flame_init
     [1000, 0, 100, 1000, 255, 1000, 255, 1000, 255, 1000, 255, 1000, 255, 1000, 255] =
     Some (200, \<lparr>flame = 100, flameprime = 200, wind = 5\<rparr>,
       [1000, 255, 1000, 255, 1000, 255, 1000, 255, 1000, 255, 1000, 255]) \<and>
   calm_run 6 \<lparr>flame = 100, flameprime = 200, wind = 5\<rparr>
     [1000, 255, 1000, 255, 1000, 255, 1000, 255, 1000, 255, 1000, 255] \<and>
   (\<exists>s7 ds7. run_ticks 7 Flame_init
     [1000, 0, 100, 1000, 255, 1000, 255, 1000, 255, 1000, 255, 1000, 255, 1000, 255] =
     Some ([200, 180, 160, 140, 120, 100, 120], s7, ds7))"
proof -
  have init: "flame Flame_init = 220" "flameprime Flame_init = 220"
    by (simp_all add: Flame_init_def flame_consts)
  have call: "GetNextFlameBrightness Flame_init
     [1000, 0, 100, 1000, 255, 1000, 255, 1000, 255, 1000, 255, 1000, 255, 1000, 255] =
     Some (200, \<lparr>flame = 100, flameprime = 200, wind = 5\<rparr>,
       [1000, 255, 1000, 255, 1000, 255, 1000, 255, 1000, 255, 1000, 255])"
    by code_simp
  have reset: "flame \<lparr>flame = 100, flameprime = 200, wind = 5\<rparr> = 100"
    by simp
  have calm: "calm_run 6 \<lparr>flame = 100, flameprime = 200, wind = 5\<rparr>
     [1000, 255, 1000, 255, 1000, 255, 1000, 255, 1000, 255, 1000, 255]"
    by code_simp
  from scenario_A_sequence [OF init call reset calm] init call calm
  show ?thesis by blast
qed

text \<open>
  The claim as written fails: in the run below the reset sets \<open>flame = 100\<close> on the
  first call, no gust or reset fires after it, and the seventh value returned is
  120, not 100.
\<close>

theorem scenario_A_counterexample:
  "calm_run 6 \<lparr>flame = 100, flameprime = 200, wind = 5\<rparr>
     [1000, 255, 1000, 255, 1000, 255, 1000, 255, 1000, 255, 1000, 255] \<and>
   GetNextFlameBrightness Flame_init
     [1000, 0, 100, 1000, 255, 1000, 255, 1000, 255, 1000, 255, 1000, 255, 1000, 255] =
     Some (200, \<lparr>flame = 100, flameprime = 200, wind = 5\<rparr>,
       [1000, 255, 1000, 255, 1000, 255, 1000, 255, 1000, 255, 1000, 255]) \<and>
   run_ticks 7 Flame_init
     [1000, 0, 100, 1000, 255, 1000, 255, 1000, 255, 1000, 255, 1000, 255, 1000, 255] =
     Some ([200, 180, 160, 140, 120, 100, 120],
       \<lparr>flame = 106, flameprime = 120, wind = 5\<rparr>, []) \<and>
   [200, 180, 160, 140, 120, 100, 120] \<noteq> [200, 180, 160, 140, 120, 100, 100 :: int]"
  by code_simp

text \<open>
  C4 (Scenario B), as the code has it. Over a run of \<open>n\<close> calls without gust from
  a reachable state, the flame increases by 1 at each call until it reaches
  \<open>MAX_BRIGHTNESS\<close> and then holds. At each call \<open>flameprime\<close> rises by
  \<open>FLAME_AGILITY\<close> (clamped at \<open>MAX_BRIGHTNESS\<close>) when the risen flame is above
  it, and falls by \<open>FLAME_AGILITY\<close> (clamped at \<open>MIN_BRIGHTNESS\<close>) otherwise. With
  both at \<open>MAX_BRIGHTNESS\<close> it does not stay there: the values returned alternate
  between \<open>MAX_BRIGHTNESS - FLAME_AGILITY\<close> and \<open>MAX_BRIGHTNESS\<close>.
\<close>

theorem no_gust_run:
  assumes "reachable s" and "calm_run n s ds"
  shows "\<exists>bs s' ds'. run_ticks n s ds = Some (bs, s', ds') \<and> length bs = n \<and>
           flame s' = min (flame s + int n) MAX_BRIGHTNESS \<and>
           (\<forall>k<n. bs ! k =
              (let fp = (if k = 0 then flameprime s else bs ! (k - 1));
                   fl = min (flame s + int k + 1) MAX_BRIGHTNESS
               in if fl > fp then min (fp + FLAME_AGILITY) MAX_BRIGHTNESS
                  else max (fp - FLAME_AGILITY) MIN_BRIGHTNESS)) \<and>
           (flame s = MAX_BRIGHTNESS \<and> flameprime s = MAX_BRIGHTNESS \<longrightarrow>
              (\<forall>k<n. bs ! k =
                 (if even k then MAX_BRIGHTNESS - FLAME_AGILITY else MAX_BRIGHTNESS)))"
proof -
  from assms(1) have "flame s \<le> MAX_BRIGHTNESS"
    using reachable_flame_inv by (simp add: flame_inv_def)
  from calm_run_ticks [OF this assms(2)] obtain bs s' ds' where
    run: "run_ticks n s ds = Some (bs, s', ds')" "length bs = n"
      "flame s' = min (flame s + int n) MAX_BRIGHTNESS" and
    rule: "\<forall>k<n. bs ! k =
              (let fp = (if k = 0 then flameprime s else bs ! (k - 1));
                   fl = min (flame s + int k + 1) MAX_BRIGHTNESS
               in if fl > fp then min (fp + FLAME_AGILITY) MAX_BRIGHTNESS
                  else max (fp - FLAME_AGILITY) MIN_BRIGHTNESS)"
    by blast
  have "bs ! k = (if even k then MAX_BRIGHTNESS - FLAME_AGILITY else MAX_BRIGHTNESS)"
    if top: "flame s = MAX_BRIGHTNESS \<and> flameprime s = MAX_BRIGHTNESS" and "k < n" for k
  proof (rule alternate_at_max [OF _ \<open>k < n\<close>])
    fix j assume "j < n"
    with rule have "bs ! j =
        (let fp = (if j = 0 then flameprime s else bs ! (j - 1));
             fl = min (flame s + int j + 1) MAX_BRIGHTNESS
         in if fl > fp then min (fp + FLAME_AGILITY) MAX_BRIGHTNESS
            else max (fp - FLAME_AGILITY) MIN_BRIGHTNESS)"
      by blast
    with top show "bs ! j =
        (let fp = (if j = 0 then MAX_BRIGHTNESS else bs ! (j - 1));
             fl = MAX_BRIGHTNESS
         in if fl > fp then min (fp + FLAME_AGILITY) MAX_BRIGHTNESS
            else max (fp - FLAME_AGILITY) MIN_BRIGHTNESS)"
      by (simp add: Let_def)
  qed
  with run rule show ?thesis by blast
qed

theorem no_gust_run_witness:
  "reachable \<lparr>flame = 100, flameprime = 200, wind = 5\<rparr> \<and>
   calm_run 3 \<lparr>flame = 100, flameprime = 200, wind = 5\<rparr> [1000, 255, 1000, 255, 1000, 255] \<and>
   run_ticks 3 \<lparr>flame = 100, flameprime = 200, wind = 5\<rparr> [1000, 255, 1000, 255, 1000, 255] =
     Some ([180, 160, 140], \<lparr>flame = 103, flameprime = 140, wind = 5\<rparr>, []) \<and>
   flame \<lparr>flame = 103, flameprime = 140, wind = 5\<rparr> =
     min (flame \<lparr>flame = 100, flameprime = 200, wind = 5\<rparr> + int 3) MAX_BRIGHTNESS"
proof -
  have "GetNextFlameBrightness Flame_init [1000, 0, 100] =
      Some (200, \<lparr>flame = 100, flameprime = 200, wind = 5\<rparr>, [])"
    by code_simp
  with reachable_init have reach: "reachable \<lparr>flame = 100, flameprime = 200, wind = 5\<rparr>"
    by (rule reachable_step)
  have calm: "calm_run 3 \<lparr>flame = 100, flameprime = 200, wind = 5\<rparr>
      [1000, 255, 1000, 255, 1000, 255]"
    by code_simp
  have run: "run_ticks 3 \<lparr>flame = 100, flameprime = 200, wind = 5\<rparr>
      [1000, 255, 1000, 255, 1000, 255] =
      Some ([180, 160, 140], \<lparr>flame = 103, flameprime = 140, wind = 5\<rparr>, [])"
    by code_simp
  from no_gust_run [OF reach calm] run
  have "flame \<lparr>flame = 103, flameprime = 140, wind = 5\<rparr> =
      min (flame \<lparr>flame = 100, flameprime = 200, wind = 5\<rparr> + int 3) MAX_BRIGHTNESS"
    by auto
  with reach calm run show ?thesis by blast
qed

text \<open>
  The claim as written fails: the initial state is reachable with \<open>flameprime\<close>
  at \<open>MAX_BRIGHTNESS\<close>, and one call without gust returns 200: \<open>flameprime\<close> does
  not remain at \<open>MAX_BRIGHTNESS\<close>, and it fell where the claim has it rise.
\<close>

theorem no_gust_counterexample:
  "reachable Flame_init \<and> flameprime Flame_init = MAX_BRIGHTNESS \<and>
   calm_run 1 Flame_init [1000, 255] \<and>
   run_ticks 1 Flame_init [1000, 255] =
     Some ([200], \<lparr>flame = 220, flameprime = 200, wind = 5\<rparr>, []) \<and>
   flameprime \<lparr>flame = 220, flameprime = 200, wind = 5\<rparr> \<noteq> MAX_BRIGHTNESS \<and>
   flameprime \<lparr>flame = 220, flameprime = 200, wind = 5\<rparr> < flameprime Flame_init"
proof -
  have "flameprime Flame_init = MAX_BRIGHTNESS \<and>
   calm_run 1 Flame_init [1000, 255] \<and>
   run_ticks 1 Flame_init [1000, 255] =
     Some ([200], \<lparr>flame = 220, flameprime = 200, wind = 5\<rparr>, []) \<and>
   flameprime \<lparr>flame = 220, flameprime = 200, wind = 5\<rparr> \<noteq> MAX_BRIGHTNESS \<and>
   flameprime \<lparr>flame = 220, flameprime = 200, wind = 5\<rparr> < flameprime Flame_init"
    by code_simp
  with reachable_init show ?thesis by blast
qed

section \<open>The entropy a call consumes\<close>

lemma randint_prefix:
  assumes "randint a b ds = Some (d, ds')"
  shows "ds = d # ds' \<and> (\<forall>r. randint a b (d # r) = Some (d, r))"
  using assms by (auto simp: randint_def split: list.splits if_splits)

lemma gust_roll_prefix:
  assumes "gust_roll s ds = Some (s', ds')"
  shows "\<exists>used. ds = used @ ds' \<and> (\<forall>r. gust_roll s (used @ r) = Some (s', r))"
proof -
  from assms obtain g ds1 where g: "randint 0 1000 ds = Some (g, ds1)"
    by (auto simp: gust_roll_def split: Option.bind_splits)
  show ?thesis
  proof (cases "g < WIND_VARIABILITY")
    case True
    with assms g obtain w where w: "randint 0 255 ds1 = Some (w, ds')"
      and s': "s' = s\<lparr>wind := w\<rparr>"
      by (auto simp: gust_roll_def split: Option.bind_splits)
    from randint_prefix [OF g] randint_prefix [OF w] True s'
    have "ds = [g, w] @ ds' \<and> (\<forall>r. gust_roll s ([g, w] @ r) = Some (s', r))"
      by (simp add: gust_roll_def)
    then show ?thesis by blast
  next
    case False
    with assms g have s': "s' = s" "ds' = ds1"
      by (auto simp: gust_roll_def)
    from randint_prefix [OF g] False s'
    have "ds = [g] @ ds' \<and> (\<forall>r. gust_roll s ([g] @ r) = Some (s', r))"
      by (simp add: gust_roll_def)
    then show ?thesis by blast
  qed
qed

lemma gust_reset_prefix:
  assumes "gust_reset s ds = Some (s', ds')"
  shows "\<exists>used. ds = used @ ds' \<and> (\<forall>r. gust_reset s (used @ r) = Some (s', r))"
proof -
  from assms obtain t ds1 where t: "randint 0 255 ds = Some (t, ds1)"
    by (auto simp: gust_reset_def split: Option.bind_splits)
  show ?thesis
  proof (cases "t < wind s")
    case True
    with assms t obtain f where
      f: "randint MIN_BRIGHTNESS MAX_BRIGHTNESS ds1 = Some (f, ds')"
      and s': "s' = s\<lparr>flame := f\<rparr>"
      by (auto simp: gust_reset_def split: Option.bind_splits)
    from randint_prefix [OF t] randint_prefix [OF f] True s'
    have "ds = [t, f] @ ds' \<and> (\<forall>r. gust_reset s ([t, f] @ r) = Some (s', r))"
      by (simp add: gust_reset_def)
    then show ?thesis by blast
  next
    case False
    with assms t have s': "s' = s" "ds' = ds1"
      by (auto simp: gust_reset_def)
    from randint_prefix [OF t] False s'
    have "ds = [t] @ ds' \<and> (\<forall>r. gust_reset s ([t] @ r) = Some (s', r))"
      by (simp add: gust_reset_def)
    then show ?thesis by blast
  qed
qed

lemma GetNextFlameBrightness_prefix:
  assumes "GetNextFlameBrightness s ds = Some (b, s', ds')"
  shows "\<exists>used. ds = used @ ds' \<and>
           (\<forall>r. GetNextFlameBrightness s (used @ r) = Some (b, s', r))"
proof -
  from assms obtain s1 ds1 s4 where
    roll: "gust_roll s ds = Some (s1, ds1)" and
    reset: "gust_reset (flame_rise (wind_settle s1)) ds1 = Some (s4, ds')" and
    s': "s' = inertial_filter s4" and b: "b = flameprime s'"
    by (rule GetNextFlameBrightness_Some)
  from gust_roll_prefix [OF roll] obtain u1 where
    u1: "ds = u1 @ ds1" "\<And>r. gust_roll s (u1 @ r) = Some (s1, r)"
    by blast
  from gust_reset_prefix [OF reset] obtain u2 where
    u2: "ds1 = u2 @ ds'"
      "\<And>r. gust_reset (flame_rise (wind_settle s1)) (u2 @ r) = Some (s4, r)"
    by blast
  have "GetNextFlameBrightness s ((u1 @ u2) @ r) = Some (b, s', r)" for r
    using u1(2) [of "u2 @ r"] u2(2) [of r] s' b
    by (simp add: GetNextFlameBrightness_def Let_def)
  moreover have "ds = (u1 @ u2) @ ds'"
    using u1(1) u2(1) by simp
  ultimately show ?thesis by blast
qed

lemma run_ticks_prefix:
  assumes "run_ticks n s ds = Some (bs, s', ds')"
  shows "\<exists>used. ds = used @ ds' \<and> (\<forall>r. run_ticks n s (used @ r) = Some (bs, s', r))"
  using assms
proof (induction n arbitrary: s ds bs)
  case 0
  then have "ds = [] @ ds' \<and> (\<forall>r. run_ticks 0 s ([] @ r) = Some (bs, s', r))"
    by simp
  then show ?case by blast
next
  case (Suc n)
  from Suc.prems obtain b s1 ds1 bs1 where
    call: "GetNextFlameBrightness s ds = Some (b, s1, ds1)" and
    run: "run_ticks n s1 ds1 = Some (bs1, s', ds')" and bs: "bs = b # bs1"
    by (auto split: Option.bind_splits)
  from GetNextFlameBrightness_prefix [OF call] obtain u1 where
    u1: "ds = u1 @ ds1" "\<And>r. GetNextFlameBrightness s (u1 @ r) = Some (b, s1, r)"
    by blast
  from Suc.IH [OF run] obtain u2 where
    u2: "ds1 = u2 @ ds'" "\<And>r. run_ticks n s1 (u2 @ r) = Some (bs1, s', r)"
    by blast
  have "run_ticks (Suc n) s ((u1 @ u2) @ r) = Some (bs, s', r)" for r
    using u1(2) [of "u2 @ r"] u2(2) [of r] bs by simp
  moreover have "ds = (u1 @ u2) @ ds'"
    using u1(1) u2(1) by simp
  ultimately show ?case by blast
qed

text \<open>
  C7. The method is a function of the object's state and of the draws it
  consumes, and of nothing else. Two runs of \<open>n\<close> calls from equal states that are
  fed the same draws return the same brightness values and end in the same
  state: on the same entropy list the two runs are equal, and when both consume
  the draws \<open>used\<close>, what follows \<open>used\<close> in the random source does not matter.
\<close>

theorem deterministic_given_entropy:
  assumes "s1 = s2"
  shows "GetNextFlameBrightness s1 ds = GetNextFlameBrightness s2 ds \<and>
         run_ticks n s1 ds = run_ticks n s2 ds \<and>
         (\<forall>used r1 r2 bs1 t1 bs2 t2.
            run_ticks n s1 (used @ r1) = Some (bs1, t1, r1) \<and>
            run_ticks n s2 (used @ r2) = Some (bs2, t2, r2) \<longrightarrow>
            bs1 = bs2 \<and> t1 = t2)"
proof -
  have "bs1 = bs2 \<and> t1 = t2"
    if 1: "run_ticks n s1 (used @ r1) = Some (bs1, t1, r1)"
      and 2: "run_ticks n s2 (used @ r2) = Some (bs2, t2, r2)"
    for used r1 r2 bs1 t1 bs2 t2
  proof -
    from run_ticks_prefix [OF 1] obtain u where
      u: "used @ r1 = u @ r1" "\<And>r. run_ticks n s1 (u @ r) = Some (bs1, t1, r)"
      by blast
    from u(1) have "u = used" by simp
    with u(2) [of r2] 2 assms show ?thesis by simp
  qed
  with assms show ?thesis by blast
qed

theorem deterministic_given_entropy_witness:
  "run_ticks 2 Flame_init ([1000, 0, 100, 1000, 255] @ []) =
     Some ([200, 180], \<lparr>flame = 101, flameprime = 180, wind = 5\<rparr>, []) \<and>
   run_ticks 2 Flame_init ([1000, 0, 100, 1000, 255] @ [1, 77]) =
     Some ([200, 180], \<lparr>flame = 101, flameprime = 180, wind = 5\<rparr>, [1, 77]) \<and>
   GetNextFlameBrightness Flame_init [1000, 255] = GetNextFlameBrightness Flame_init [1000, 255]"
proof -
  have 1: "run_ticks 2 Flame_init ([1000, 0, 100, 1000, 255] @ []) =
     Some ([200, 180], \<lparr>flame = 101, flameprime = 180, wind = 5\<rparr>, [])"
    by code_simp
  from run_ticks_prefix [OF 1] obtain u where
    u: "[1000, 0, 100, 1000, 255] @ [] = u @ ([]::int list)"
      "\<And>r. run_ticks 2 Flame_init (u @ r) = Some ([200, 180], \<lparr>flame = 101, flameprime = 180, wind = 5\<rparr>, r)"
    by blast
  from u(1) have "u = [1000, 0, 100, 1000, 255]" by simp
  with u(2) [of "[1, 77]"] have 2: "run_ticks 2 Flame_init ([1000, 0, 100, 1000, 255] @ [1, 77]) =
     Some ([200, 180], \<lparr>flame = 101, flameprime = 180, wind = 5\<rparr>, [1, 77])"
    by simp
  from deterministic_given_entropy [OF refl, of Flame_init "[1000, 255]" 2] 1 2
  show ?thesis by blast
qed

section \<open>Reading the credentials\<close>

lemma concat_readlines: "concat (readlines s) = s"
  by (induction s) (auto split: list.splits)

lemma readlines_nonempty: "l \<in> set (readlines s) \<Longrightarrow> l \<noteq> []"
  by (induction s arbitrary: l) (auto split: list.splits if_splits)

lemma readlines_line_feed:
  "l \<in> set (readlines s) \<Longrightarrow> CHR 0x0A \<notin> set (butlast l)"
proof (induction s arbitrary: l)
  case Nil
  then show ?case by simp
next
  case (Cons c cs)
  show ?case
  proof (cases "c = CHR 0x0A")
    case True
    with Cons show ?thesis by auto
  next
    case False
    show ?thesis
    proof (cases "readlines cs")
      case Nil
      with False Cons.prems show ?thesis by simp
    next
      case (Cons l' ls)
      then have "l' \<noteq> []" using readlines_nonempty [of l' cs] by simp
      with Cons False Cons.prems Cons.IH show ?thesis by auto
    qed
  qed
qed

text \<open>
  C9. For a file that exists, the function raises ValueError exactly when the
  file does not have exactly two lines, and it raises nothing else; with exactly
  two lines it returns the pair of the first and the second line, each without
  its surrounding whitespace (the line feed that ends it included), as
  \<^verbatim>\<open>line.strip()\<close> leaves them in the list \<^verbatim>\<open>lines\<close>.
\<close>

theorem GetBridgeIpAndUsername_two_lines:
  assumes "fs filename = Some content"
  shows "(GetBridgeIpAndUsername fs filename = Inl ValueError \<longleftrightarrow>
            length (readlines content) \<noteq> 2) \<and>
         (isl (GetBridgeIpAndUsername fs filename) \<longleftrightarrow>
            length (readlines content) \<noteq> 2) \<and>
         (length (readlines content) = 2 \<longrightarrow>
            GetBridgeIpAndUsername fs filename =
              Inr (strip (readlines content ! 0), strip (readlines content ! 1)))"
  using assms by (simp add: GetBridgeIpAndUsername_def Let_def)

theorem GetBridgeIpAndUsername_two_lines_witness:
  "[''./bridge_ip_and_username.txt'' \<mapsto> ''192.168.1.42\<newline>ab8d8fbd8d8d8bdbd88d8bd80898\<newline>'']
     ''./bridge_ip_and_username.txt'' =
     Some ''192.168.1.42\<newline>ab8d8fbd8d8d8bdbd88d8bd80898\<newline>'' \<and>
   length (readlines ''192.168.1.42\<newline>ab8d8fbd8d8d8bdbd88d8bd80898\<newline>'') = 2 \<and>
   GetBridgeIpAndUsername
     [''./bridge_ip_and_username.txt'' \<mapsto> ''192.168.1.42\<newline>ab8d8fbd8d8d8bdbd88d8bd80898\<newline>'']
     ''./bridge_ip_and_username.txt'' =
     Inr (''192.168.1.42'', ''ab8d8fbd8d8d8bdbd88d8bd80898'') \<and>
   [''f'' \<mapsto> ''192.168.1.42\<newline>''] ''f'' = Some ''192.168.1.42\<newline>'' \<and>
   length (readlines ''192.168.1.42\<newline>'') \<noteq> 2 \<and>
   GetBridgeIpAndUsername [''f'' \<mapsto> ''192.168.1.42\<newline>''] ''f'' = Inl ValueError"
proof -
  let ?c = "''192.168.1.42\<newline>ab8d8fbd8d8d8bdbd88d8bd80898\<newline>''"
  let ?fs = "[''./bridge_ip_and_username.txt'' \<mapsto> ?c]"
  have cred: "?fs ''./bridge_ip_and_username.txt'' = Some ?c"
    by simp
  have len: "length (readlines ?c) = 2"
    by code_simp
  have lines: "strip (readlines ?c ! 0) = ''192.168.1.42''"
    "strip (readlines ?c ! 1) = ''ab8d8fbd8d8d8bdbd88d8bd80898''"
    by code_simp+
  have cred1: "[''f'' \<mapsto> ''192.168.1.42\<newline>''] ''f'' = Some ''192.168.1.42\<newline>''"
    by simp
  have len1: "length (readlines ''192.168.1.42\<newline>'') \<noteq> 2"
    by code_simp
  from GetBridgeIpAndUsername_two_lines
      [of ?fs "''./bridge_ip_and_username.txt''" ?c, OF cred] len lines
    GetBridgeIpAndUsername_two_lines
      [of "[''f'' \<mapsto> ''192.168.1.42\<newline>'']" "''f''" "''192.168.1.42\<newline>''", OF cred1]
    len1 cred cred1
  show ?thesis by simp
qed

section \<open>The dispatch loop in sync mode\<close>

lemma for_lights_sync:
  "for_lights True lights (Some b) flames ds =
     Some (map (\<lambda>i. PutBri i b transitiontime) lights, Some b, flames, ds)"
  by (induction lights) simp_all

lemma loop_body_sync:
  "loop_body True True lights brightness flames ds =
     do {
       i0 \<leftarrow> first_light lights;
       (b, flames', ds') \<leftarrow> call_flame flames i0 ds;
       Some (map (\<lambda>i. PutBri i b transitiontime) lights, Some b, flames', ds')
     }"
  by (auto simp: loop_body_def for_lights_sync split: Option.bind_split)

lemma make_flames_fold:
  "fold (\<lambda>i flames. flames(i \<mapsto> v)) lights m =
     (\<lambda>i. if i \<in> set lights then Some v else m i)"
  by (induction lights arbitrary: m) auto

lemma make_flames_eq:
  "make_flames lights = (\<lambda>i. if i \<in> set lights then Some Flame_init else None)"
  by (simp add: make_flames_def make_flames_fold)

lemma main_loop_sync:
  assumes "main_loop n True True lights brightness flames ds =
      Some (out, brightness', flames', ds')"
    and "first_light lights = Some i0" and "flames i0 = Some f"
  shows "\<exists>bs s'. run_ticks n f ds = Some (bs, s', ds') \<and> flames' = flames(i0 \<mapsto> s') \<and>
           out = concat (map (\<lambda>b. map (\<lambda>i. PutBri i b transitiontime) lights) bs)"
  using assms
proof (induction n arbitrary: brightness flames ds f out)
  case 0
  then have "flames' = flames(i0 \<mapsto> f)" by (simp add: fun_upd_idem)
  with 0 show ?case by simp
next
  case (Suc n)
  from Suc.prems obtain out1 br1 flames1 ds1 out2 where
    body: "loop_body True True lights brightness flames ds = Some (out1, br1, flames1, ds1)"
    and rest: "main_loop n True True lights br1 flames1 ds1 = Some (out2, brightness', flames', ds')"
    and out: "out = out1 @ out2"
    by (auto split: Option.bind_splits)
  from body Suc.prems(2,3) obtain b f1 where
    call: "GetNextFlameBrightness f ds = Some (b, f1, ds1)" and
    flames1: "flames1 = flames(i0 \<mapsto> f1)" and
    out1: "out1 = map (\<lambda>i. PutBri i b transitiontime) lights"
    by (auto simp: loop_body_sync call_flame_def split: Option.bind_splits)
  from flames1 have "flames1 i0 = Some f1" by simp
  from Suc.IH [OF rest Suc.prems(2) this] obtain bs s' where
    run: "run_ticks n f1 ds1 = Some (bs, s', ds')" and
    flames': "flames' = flames1(i0 \<mapsto> s')" and
    out2: "out2 = concat (map (\<lambda>b. map (\<lambda>i. PutBri i b transitiontime) lights) bs)"
    by blast
  from call run have "run_ticks (Suc n) f ds = Some (b # bs, s', ds')" by simp
  moreover from flames' flames1 have "flames' = flames(i0 \<mapsto> s')" by simp
  moreover from out out1 out2
  have "out = concat (map (\<lambda>b. map (\<lambda>i. PutBri i b transitiontime) lights) (b # bs))"
    by simp
  ultimately show ?case by blast
qed

text \<open>
  The program as configured: what \<^verbatim>\<open>main\<close> has sent and holds after \<open>n\<close> passes
  of its loop.
\<close>

lemma main_sync:
  assumes "main fs n ds = Inr (Some (out, flames', ds'))"
  shows "\<exists>bs s'. run_ticks n Flame_init ds = Some (bs, s', ds') \<and>
           flames' = (make_flames LIGHTS)(2 \<mapsto> s') \<and> flames' 4 = Some Flame_init \<and>
           out = map PutOn LIGHTS @
             concat (map (\<lambda>b. map (\<lambda>i. PutBri i b transitiontime) LIGHTS) bs)"
proof -
  from assms obtain out2 brightness' where
    loop: "main_loop n True True LIGHTS None (make_flames LIGHTS) ds =
      Some (out2, brightness', flames', ds')" and
    out: "out = map PutOn LIGHTS @ out2"
    by (auto simp: main_def SEND_TO_HUE_def IN_SYNC_def Let_def
        split: sum.splits Option.bind_splits)
  have first: "first_light LIGHTS = Some 2" "make_flames LIGHTS 2 = Some Flame_init"
    by (simp_all add: first_light_def LIGHTS_def make_flames_eq)
  from main_loop_sync [OF loop first] obtain bs s' where
    run: "run_ticks n Flame_init ds = Some (bs, s', ds')" and
    flames': "flames' = (make_flames LIGHTS)(2 \<mapsto> s')" and
    out2: "out2 = concat (map (\<lambda>b. map (\<lambda>i. PutBri i b transitiontime) LIGHTS) bs)"
    by blast
  from flames' have "flames' 4 = Some Flame_init"
    by (simp add: make_flames_eq LIGHTS_def)
  with run flames' out out2 show ?thesis by blast
qed

text \<open>
  C8. In sync mode, a pass of the loop that sends to the lights makes exactly one
  call of the method, on the Flame of the first light: the entropy and the
  Flames after the pass are those after that one call. Every light of the list
  is sent the brightness that call returned, in the order of the list; with two
  lights, both get the same value.
\<close>

theorem sync_one_call_same_brightness:
  assumes "loop_body SEND_TO_HUE IN_SYNC lights brightness flames ds =
      Some (out, brightness', flames', ds')"
  shows "\<exists>i0 f b f'. first_light lights = Some i0 \<and> flames i0 = Some f \<and>
           GetNextFlameBrightness f ds = Some (b, f', ds') \<and>
           flames' = flames(i0 \<mapsto> f') \<and> brightness' = Some b \<and>
           out = map (\<lambda>i. PutBri i b transitiontime) lights"
  using assms
  by (auto simp: SEND_TO_HUE_def IN_SYNC_def loop_body_sync call_flame_def
      split: Option.bind_splits)

theorem sync_one_call_same_brightness_witness:
  "\<exists>flames'. loop_body SEND_TO_HUE IN_SYNC LIGHTS None (make_flames LIGHTS) [1000, 255] =
      Some ([PutBri 2 200 5, PutBri 4 200 5], Some 200, flames', []) \<and>
    flames' = (make_flames LIGHTS)(2 \<mapsto> \<lparr>flame = 220, flameprime = 200, wind = 5\<rparr>)"
proof -
  have "case loop_body SEND_TO_HUE IN_SYNC LIGHTS None (make_flames LIGHTS) [1000, 255] of
      None \<Rightarrow> False
    | Some (out, br, fl, ds') \<Rightarrow> out = [PutBri 2 200 5, PutBri 4 200 5] \<and> br = Some 200 \<and> ds' = []"
    by code_simp
  then obtain flames' where body:
    "loop_body SEND_TO_HUE IN_SYNC LIGHTS None (make_flames LIGHTS) [1000, 255] =
      Some ([PutBri 2 200 5, PutBri 4 200 5], Some 200, flames', [])"
    by (auto split: option.splits)
  have first: "first_light LIGHTS = Some 2" "make_flames LIGHTS 2 = Some Flame_init"
    by (simp_all add: first_light_def LIGHTS_def make_flames_eq)
  have call: "GetNextFlameBrightness Flame_init [1000, 255] =
      Some (200, \<lparr>flame = 220, flameprime = 200, wind = 5\<rparr>, [])"
    by code_simp
  from sync_one_call_same_brightness [OF body] first call
  have "flames' = (make_flames LIGHTS)(2 \<mapsto> \<lparr>flame = 220, flameprime = 200, wind = 5\<rparr>)"
    by auto
  with body show ?thesis by blast
qed

text \<open>
  C10. \<^verbatim>\<open>main\<close> makes one Flame for each light of the list, each in the initial
  state. In sync mode, after any number of passes of the loop, the Flame of the
  first light is the one that the calls were made on (\<open>n\<close> passes are \<open>n\<close>
  successive calls on it, drawing all the entropy the loop consumed), and the
  Flame of every other light is still in its initial state.
\<close>

theorem sync_other_flames_untouched:
  assumes "lights \<noteq> []"
    and "main_loop n SEND_TO_HUE IN_SYNC lights brightness (make_flames lights) ds =
      Some (out, brightness', flames', ds')"
  shows "dom (make_flames lights) = set lights \<and>
         (\<forall>i\<in>set lights. make_flames lights i = Some Flame_init) \<and>
         (\<exists>bs s'. run_ticks n Flame_init ds = Some (bs, s', ds') \<and>
            flames' = (make_flames lights)(hd lights \<mapsto> s')) \<and>
         (\<forall>i\<in>set lights. i \<noteq> hd lights \<longrightarrow> flames' i = Some Flame_init)"
proof -
  from assms(1) have first: "first_light lights = Some (hd lights)"
    by (cases lights) (simp_all add: first_light_def)
  from assms(1) have init: "make_flames lights (hd lights) = Some Flame_init"
    by (simp add: make_flames_eq)
  from assms(2) have "main_loop n True True lights brightness (make_flames lights) ds =
      Some (out, brightness', flames', ds')"
    by (simp add: SEND_TO_HUE_def IN_SYNC_def)
  from main_loop_sync [OF this first init] obtain bs s' where
    run: "run_ticks n Flame_init ds = Some (bs, s', ds')" and
    flames': "flames' = (make_flames lights)(hd lights \<mapsto> s')"
    by blast
  have "dom (make_flames lights) = set lights"
    by (auto simp: make_flames_eq split: if_splits)
  moreover have "\<forall>i\<in>set lights. make_flames lights i = Some Flame_init"
    by (simp add: make_flames_eq)
  moreover have "\<forall>i\<in>set lights. i \<noteq> hd lights \<longrightarrow> flames' i = Some Flame_init"
    by (simp add: flames' make_flames_eq)
  ultimately show ?thesis using run flames' by blast
qed

theorem sync_other_flames_untouched_witness:
  "LIGHTS \<noteq> [] \<and>
   (\<exists>out brightness' flames' ds'.
      main_loop 3 SEND_TO_HUE IN_SYNC LIGHTS None (make_flames LIGHTS)
        [1000, 0, 100, 1000, 255, 1000, 255] = Some (out, brightness', flames', ds') \<and>
      flames' 4 = Some Flame_init \<and>
      flames' 2 = Some \<lparr>flame = 102, flameprime = 160, wind = 5\<rparr>)"
proof -
  have ne: "LIGHTS \<noteq> []" by (simp add: LIGHTS_def)
  have "case main_loop 3 SEND_TO_HUE IN_SYNC LIGHTS None (make_flames LIGHTS)
        [1000, 0, 100, 1000, 255, 1000, 255] of
      None \<Rightarrow> False | Some r \<Rightarrow> True"
    by code_simp
  then obtain out brightness' flames' ds' where loop:
    "main_loop 3 SEND_TO_HUE IN_SYNC LIGHTS None (make_flames LIGHTS)
        [1000, 0, 100, 1000, 255, 1000, 255] = Some (out, brightness', flames', ds')"
    by (auto split: option.splits)
  have run: "run_ticks 3 Flame_init [1000, 0, 100, 1000, 255, 1000, 255] =
      Some ([200, 180, 160], \<lparr>flame = 102, flameprime = 160, wind = 5\<rparr>, [])"
    by code_simp
  from sync_other_flames_untouched [OF ne loop] run
  have "flames' 4 = Some Flame_init \<and>
      flames' 2 = Some \<lparr>flame = 102, flameprime = 160, wind = 5\<rparr>"
    by (auto simp: LIGHTS_def)
  with ne loop show ?thesis by blast
qed

end
